theory Spec2Isabelle
  imports Main "HOL-Library.Word"
begin

unbundle bit_operations_syntax

section \<open>The arena allocator of \<^verbatim>\<open>src/P1/mymalloc.c\<close>\<close>

text \<open>
  The allocator manages one static buffer \<^verbatim>\<open>heap.bytes\<close> of \<^verbatim>\<open>MEMLENGTH\<close> bytes. A chunk
  is a header \<^verbatim>\<open>chunk_t\<close> followed by its payload; the next header starts right after the
  payload.

  Conventions of the embedding.
  \<^item> A pointer is \<^verbatim>\<open>NULL\<close> or \<open>Addr k\<close>, the address \<^verbatim>\<open>heap.bytes + k\<close>; \<open>k\<close> is an
    unbounded integer, negative for an address below the buffer. Pointer arithmetic
    that would leave the address space is undefined in C and is not modelled.
    The buffer is a union with a \<^verbatim>\<open>double\<close>, hence 8-aligned, so
    \<^verbatim>\<open>(uintptr_t)ptr % ALIGNMENT\<close> is \<open>k mod 8\<close>.
  \<^item> \<^verbatim>\<open>size_t\<close> is a 64-bit word and wraps; \<^verbatim>\<open>sizeof(chunk_t)\<close> is 16 (an 8-byte
    \<^verbatim>\<open>size_t\<close>, a 4-byte \<^verbatim>\<open>int\<close>, 4 bytes of padding).
  \<^item> The buffer is a store of headers: \<open>h k\<close> is the \<^verbatim>\<open>chunk_t\<close> read through a pointer to
    offset \<open>k\<close>. Headers at different offsets are independent cells; the byte
    representation of a header is not modelled.
  \<^item> \<^verbatim>\<open>fprintf(stderr, ...)\<close> appends a message to \<open>err_out\<close>; the \<^verbatim>\<open>file\<close> and \<^verbatim>\<open>line\<close>
    arguments only flow into the message text and are left out. \<^verbatim>\<open>debug_print\<close> prints
    nothing in the default build (\<^verbatim>\<open>DEBUG\<close> is 0).
\<close>

subsection \<open>Constants and data\<close>

abbreviation (input) MEMLENGTH :: "'a::numeral" where "MEMLENGTH \<equiv> 4096"
abbreviation (input) ALIGNMENT :: "'a::numeral" where "ALIGNMENT \<equiv> 8"
abbreviation (input) MIN_CHUNK_SIZE :: "'a::numeral" where "MIN_CHUNK_SIZE \<equiv> 16"
abbreviation (input) sizeof_chunk_t :: "'a::numeral" where "sizeof_chunk_t \<equiv> 16"

type_synonym size_t = "64 word"

record chunk_t =
  chunk_size :: size_t
  allocated :: "32 word"

type_synonym heap_t = "int \<Rightarrow> chunk_t"

datatype ptr = NULL | Addr int

datatype msg =
    Malloc_zero
  | Malloc_unable size_t
  | Free_out_of_bounds
  | Free_misaligned
  | Free_invalid_header
  | Free_double
  | Leaked size_t int

datatype handler = Leak_detection

record state =
  heap :: heap_t
  initialized :: bool
  atexit_handlers :: "handler list"
  err_out :: "msg list"

datatype outcome = Returned state | Exited int state

text \<open>The process image before any call: static storage is zero-initialised.\<close>

definition pristine :: state where
  "pristine = \<lparr>heap = (\<lambda>_. \<lparr>chunk_size = 0, allocated = 0\<rparr>), initialized = False,
     atexit_handlers = [], err_out = []\<rparr>"

definition eprint :: "msg \<Rightarrow> state \<Rightarrow> state" where
  "eprint m s = s\<lparr>err_out := err_out s @ [m]\<rparr>"

subsection \<open>Walking the chunks\<close>

text \<open>The address right after a chunk: \<^verbatim>\<open>(char*)c + sizeof(chunk_t) + c->size\<close>.\<close>

definition next_chunk :: "heap_t \<Rightarrow> int \<Rightarrow> int" where
  "next_chunk h c = c + sizeof_chunk_t + uint (chunk_size (h c))"

lemma next_chunk_gt: "c + 16 \<le> next_chunk h c"
  by (simp add: next_chunk_def)

lemma next_chunk_less [simp]: "c < next_chunk h c"
  using next_chunk_gt [of c h] by linarith

text \<open>
  The chunks met when walking from \<open>c\<close> while inside the arena, as the loops of
  \<^verbatim>\<open>leak_detection\<close> and \<^verbatim>\<open>dump_heap\<close> do, and the address where the walk stops.
\<close>

function walk :: "heap_t \<Rightarrow> int \<Rightarrow> int list" where
  "walk h c = (if c < MEMLENGTH then c # walk h (next_chunk h c) else [])"
  by pat_completeness auto
termination
  by (relation "measure (\<lambda>(h, c). nat (MEMLENGTH - c))") auto

function walk_end :: "heap_t \<Rightarrow> int \<Rightarrow> int" where
  "walk_end h c = (if c < MEMLENGTH then walk_end h (next_chunk h c) else c)"
  by pat_completeness auto
termination
  by (relation "measure (\<lambda>(h, c). nat (MEMLENGTH - c))") auto

declare walk.simps [simp del] walk_end.simps [simp del]

subsection \<open>Initialisation and leak detection\<close>

text \<open>
  \<^verbatim>\<open>leak_detection\<close>: the loop accumulates \<^verbatim>\<open>leak_count\<close> (an \<^verbatim>\<open>int\<close>; at most 256 chunks
  fit, so it cannot overflow) and \<^verbatim>\<open>leaked_bytes\<close> (a \<^verbatim>\<open>size_t\<close>).
\<close>

function leak_loop :: "heap_t \<Rightarrow> int \<Rightarrow> int \<times> size_t \<Rightarrow> int \<times> size_t" where
  "leak_loop h current (leak_count, leaked_bytes) =
     (if current < MEMLENGTH then
        (let (leak_count', leaked_bytes') =
               (if allocated (h current) \<noteq> 0
                then (leak_count + 1, leaked_bytes + chunk_size (h current))
                else (leak_count, leaked_bytes));
             current' = next_chunk h current
         in if current' \<ge> MEMLENGTH then (leak_count', leaked_bytes')
            else leak_loop h current' (leak_count', leaked_bytes'))
      else (leak_count, leaked_bytes))"
  by pat_completeness auto
termination
  by (relation "measure (\<lambda>(h, c, a). nat (MEMLENGTH - c))") auto

declare leak_loop.simps [simp del]

definition leak_detection :: "state \<Rightarrow> state" where
  "leak_detection s =
     (let (leak_count, leaked_bytes) = leak_loop (heap s) 0 (0, 0)
      in if leak_count > 0 then eprint (Leaked leaked_bytes leak_count) s else s)"

text \<open>
  \<^verbatim>\<open>atexit\<close> and \<^verbatim>\<open>exit\<close> are the C library's: \<^verbatim>\<open>atexit\<close> registers a function, and
  \<^verbatim>\<open>exit(status)\<close> first calls the registered functions, the last registered first,
  then ends the process with the status. Returning from \<^verbatim>\<open>main\<close> is \<^verbatim>\<open>exit\<close> too.
  \<open>atexit_handlers\<close> holds the registered functions, the last registered first.
\<close>

fun run_handlers :: "handler list \<Rightarrow> state \<Rightarrow> state" where
  "run_handlers [] s = s"
| "run_handlers (Leak_detection # hs) s = run_handlers hs (leak_detection s)"

definition c_exit :: "int \<Rightarrow> state \<Rightarrow> outcome" where
  "c_exit status s = Exited status (run_handlers (atexit_handlers s) s)"

definition initialize_heap :: "state \<Rightarrow> state" where
  "initialize_heap s =
     s\<lparr>heap := (heap s)(0 := \<lparr>chunk_size = MEMLENGTH - sizeof_chunk_t, allocated = 0\<rparr>),
       initialized := True,
       atexit_handlers := Leak_detection # atexit_handlers s\<rparr>"

subsection \<open>\<^verbatim>\<open>mymalloc\<close>\<close>

text \<open>Rounding up to a multiple of \<^verbatim>\<open>ALIGNMENT\<close>, then the minimum payload.\<close>

definition aligned_size :: "size_t \<Rightarrow> size_t" where
  "aligned_size sz =
     (let a = (sz + (ALIGNMENT - 1)) AND NOT (ALIGNMENT - 1)
      in if a < MIN_CHUNK_SIZE - sizeof_chunk_t then MIN_CHUNK_SIZE - sizeof_chunk_t else a)"

text \<open>The body run on the chunk the search has selected: split if large, mark, return.\<close>

definition take_chunk :: "heap_t \<Rightarrow> size_t \<Rightarrow> int \<Rightarrow> ptr \<times> heap_t" where
  "take_chunk h a current =
     (let h1 =
        (if chunk_size (h current) \<ge> a + sizeof_chunk_t + MIN_CHUNK_SIZE then
           (let new_chunk = current + sizeof_chunk_t + uint a;
                remaining_size = chunk_size (h current) - a - sizeof_chunk_t;
                h' = h(new_chunk := \<lparr>chunk_size = remaining_size, allocated = 0\<rparr>)
            in h'(current := (h' current)\<lparr>chunk_size := a\<rparr>))
         else h)
      in (Addr (current + sizeof_chunk_t), h1(current := (h1 current)\<lparr>allocated := 1\<rparr>)))"

function malloc_loop :: "heap_t \<Rightarrow> size_t \<Rightarrow> int \<Rightarrow> ptr \<times> heap_t" where
  "malloc_loop h a current =
     (if current < MEMLENGTH then
        (if allocated (h current) = 0 \<and> chunk_size (h current) \<ge> a then take_chunk h a current
         else (let nxt = next_chunk h current
               in if nxt \<le> current \<or> nxt \<ge> MEMLENGTH then (NULL, h)
                  else malloc_loop h a nxt))
      else (NULL, h))"
  by pat_completeness auto
termination
  by (relation "measure (\<lambda>(h, a, c). nat (MEMLENGTH - c))") auto

declare malloc_loop.simps [simp del]

definition mymalloc :: "state \<Rightarrow> size_t \<Rightarrow> ptr \<times> state" where
  "mymalloc s0 sz =
     (let s = (if \<not> initialized s0 then initialize_heap s0 else s0)
      in if sz = 0 then (NULL, eprint Malloc_zero s)
         else (let (p, h') = malloc_loop (heap s) (aligned_size sz) 0
               in if p = NULL then (NULL, eprint (Malloc_unable sz) s)
                  else (p, s\<lparr>heap := h'\<rparr>)))"

subsection \<open>\<^verbatim>\<open>myfree\<close>\<close>

text \<open>The scan for the chunk that ends where \<open>chunk\<close> starts.\<close>

function prev_scan :: "heap_t \<Rightarrow> int \<Rightarrow> int \<Rightarrow> int option" where
  "prev_scan h chunk scan =
     (if scan \<noteq> chunk \<and> scan < MEMLENGTH then
        (let next_scan = next_chunk h scan
         in if next_scan = chunk then Some scan
            else if next_scan \<le> scan \<or> next_scan \<ge> MEMLENGTH then None
            else prev_scan h chunk next_scan)
      else None)"
  by pat_completeness auto
termination
  by (relation "measure (\<lambda>(h, c, s). nat (MEMLENGTH - s))") auto

declare prev_scan.simps [simp del]

text \<open>The part of \<^verbatim>\<open>myfree\<close> after the checks: mark free, merge forward, merge backward.\<close>

definition coalesce :: "heap_t \<Rightarrow> int \<Rightarrow> heap_t" where
  "coalesce h chunk =
     (let h1 = h(chunk := (h chunk)\<lparr>allocated := 0\<rparr>);
          nxt = next_chunk h1 chunk;
          h2 = (if nxt < MEMLENGTH \<and> allocated (h1 nxt) = 0
                then h1(chunk := (h1 chunk)\<lparr>chunk_size :=
                       chunk_size (h1 chunk) + (sizeof_chunk_t + chunk_size (h1 nxt))\<rparr>)
                else h1)
      in case prev_scan h2 chunk 0 of
           None \<Rightarrow> h2
         | Some prev \<Rightarrow>
             if allocated (h2 prev) = 0
             then h2(prev := (h2 prev)\<lparr>chunk_size :=
                    chunk_size (h2 prev) + (sizeof_chunk_t + chunk_size (h2 chunk))\<rparr>)
             else h2)"

definition myfree :: "state \<Rightarrow> ptr \<Rightarrow> outcome" where
  "myfree s p =
     (case p of
        NULL \<Rightarrow> Returned s
      | Addr k \<Rightarrow>
          if k < 0 \<or> k \<ge> MEMLENGTH then c_exit 2 (eprint Free_out_of_bounds s)
          else if k mod ALIGNMENT \<noteq> 0 then c_exit 2 (eprint Free_misaligned s)
          else (let chunk = k - sizeof_chunk_t
                in if chunk < 0
                      \<or> chunk + sizeof_chunk_t + uint (chunk_size (heap s chunk)) > MEMLENGTH
                      \<or> chunk_size (heap s chunk) = 0
                      \<or> chunk_size (heap s chunk) mod ALIGNMENT \<noteq> 0
                   then c_exit 2 (eprint Free_invalid_header s)
                   else if allocated (heap s chunk) = 0 then c_exit 2 (eprint Free_double s)
                   else Returned (s\<lparr>heap := coalesce (heap s) chunk\<rparr>)))"

section \<open>The arena invariant\<close>

text \<open>
  \<open>seg h c xs e\<close>: the headers \<open>xs\<close> lie one after the other in \<open>h\<close>, the first at \<open>c\<close>,
  the last ending at \<open>e\<close>; \<open>starts c xs\<close> are their addresses. \<open>arena_inv\<close> is the invariant
  of the arena, on the chunks reached by walking the headers from the base: the walk
  ends exactly at the end of the arena, every payload size is a multiple of
  \<^verbatim>\<open>ALIGNMENT\<close>, and no two neighbours are both free.
\<close>

fun seg :: "heap_t \<Rightarrow> int \<Rightarrow> chunk_t list \<Rightarrow> int \<Rightarrow> bool" where
  "seg h c [] e = (c = e)"
| "seg h c (x # xs) e = (h c = x \<and> seg h (c + 16 + uint (chunk_size x)) xs e)"

fun starts :: "int \<Rightarrow> chunk_t list \<Rightarrow> int list" where
  "starts c [] = []"
| "starts c (x # xs) = c # starts (c + 16 + uint (chunk_size x)) xs"

fun no_adjacent_free :: "chunk_t list \<Rightarrow> bool" where
  "no_adjacent_free (x # y # xs) =
     (\<not> (allocated x = 0 \<and> allocated y = 0) \<and> no_adjacent_free (y # xs))"
| "no_adjacent_free _ = True"


lemma seg_le: "seg h c xs e \<Longrightarrow> c \<le> e"
proof (induction xs arbitrary: c)
  case Nil then show ?case by simp
next
  case (Cons x xs)
  then have "c + 16 + uint (chunk_size x) \<le> e" by simp
  then show ?case using uint_ge_0 [of "chunk_size x"] by linarith
qed

lemma seg_Cons_le: "seg h c (x # xs) e \<Longrightarrow> c + 16 + uint (chunk_size x) \<le> e"
  using seg_le [of h "c + 16 + uint (chunk_size x)" xs e] by simp

lemma seg_same_end: "seg h e xs e \<Longrightarrow> xs = []"
proof (cases xs)
  case Nil then show ?thesis by simp
next
  case (Cons x ys)
  assume "seg h e xs e"
  with Cons have "e + 16 + uint (chunk_size x) \<le> e" using seg_Cons_le by blast
  then show ?thesis using uint_ge_0 [of "chunk_size x"] by linarith
qed


lemma starts_ge: "k \<in> set (starts c xs) \<Longrightarrow> c \<le> k"
proof (induction xs arbitrary: c)
  case Nil then show ?case by simp
next
  case (Cons x xs)
  show ?case
  proof (cases "k = c")
    case True then show ?thesis by simp
  next
    case False
    with Cons.prems have "k \<in> set (starts (c + 16 + uint (chunk_size x)) xs)" by simp
    from Cons.IH [OF this] show ?thesis using uint_ge_0 [of "chunk_size x"] by linarith
  qed
qed


lemma seg_upd_notin:
  "seg h c xs e \<Longrightarrow> k \<notin> set (starts c xs) \<Longrightarrow> seg (h(k := v)) c xs e"
  by (induction xs arbitrary: c) auto

lemma seg_upd_below: "seg h c xs e \<Longrightarrow> k < c \<Longrightarrow> seg (h(k := v)) c xs e"
  using starts_ge [of k c xs] by (intro seg_upd_notin) auto


lemma seg_size_le:
  "seg h c xs e \<Longrightarrow> x \<in> set xs \<Longrightarrow> c + 16 + uint (chunk_size x) \<le> e"
proof (induction xs arbitrary: c)
  case Nil then show ?case by simp
next
  case (Cons y ys)
  show ?case
  proof (cases "x = y")
    case True
    with seg_Cons_le [OF Cons.prems(1)] show ?thesis by simp
  next
    case False
    with Cons.prems have "x \<in> set ys" "seg h (c + 16 + uint (chunk_size y)) ys e" by simp_all
    from Cons.IH [OF this(2) this(1)] show ?thesis
      using uint_ge_0 [of "chunk_size y"] by linarith
  qed
qed

lemma walk_out: "\<not> c < 4096 \<Longrightarrow> walk h c = []"
  by (simp add: walk.simps [of h c])

lemma walk_in: "c < 4096 \<Longrightarrow> walk h c = c # walk h (next_chunk h c)"
  by (simp add: walk.simps [of h c])

lemma walk_end_out: "\<not> c < 4096 \<Longrightarrow> walk_end h c = c"
  by (simp add: walk_end.simps [of h c])

lemma walk_end_in: "c < 4096 \<Longrightarrow> walk_end h c = walk_end h (next_chunk h c)"
  by (simp add: walk_end.simps [of h c])

lemma walk_seg:
  "seg h c xs MEMLENGTH \<Longrightarrow>
     walk h c = starts c xs \<and> map h (starts c xs) = xs \<and> walk_end h c = MEMLENGTH"
proof (induction xs arbitrary: c)
  case Nil
  then show ?case by (simp add: walk_out walk_end_out)
next
  case (Cons x xs)
  from seg_Cons_le [OF Cons.prems] have "c < 4096"
    using uint_ge_0 [of "chunk_size x"] by linarith
  moreover from Cons.prems have hx: "h c = x" and sg: "seg h (next_chunk h c) xs 4096"
    by (simp_all add: next_chunk_def)
  moreover note Cons.IH [OF sg]
  ultimately show ?case
    by (simp add: walk_in walk_end_in next_chunk_def)
qed


definition wf_chunks :: "chunk_t list \<Rightarrow> bool" where
  "wf_chunks xs \<longleftrightarrow> (\<forall>x \<in> set xs. uint (chunk_size x) mod 8 = 0) \<and> no_adjacent_free xs"


section \<open>Unfolding the loops\<close>

lemma malloc_loop_out: "\<not> c < 4096 \<Longrightarrow> malloc_loop h a c = (NULL, h)"
  by (simp add: malloc_loop.simps [of h a c])

lemma malloc_loop_take:
  "c < 4096 \<Longrightarrow> allocated (h c) = 0 \<and> a \<le> chunk_size (h c) \<Longrightarrow>
     malloc_loop h a c = take_chunk h a c"
  by (simp add: malloc_loop.simps [of h a c])

lemma malloc_loop_skip:
  "c < 4096 \<Longrightarrow> \<not> (allocated (h c) = 0 \<and> a \<le> chunk_size (h c)) \<Longrightarrow>
     malloc_loop h a c =
       (if next_chunk h c \<ge> 4096 then (NULL, h) else malloc_loop h a (next_chunk h c))"
proof -
  assume a: "c < 4096" "\<not> (allocated (h c) = 0 \<and> a \<le> chunk_size (h c))"
  have "\<not> next_chunk h c \<le> c" by (simp add: not_le)
  with a show ?thesis by (auto simp: malloc_loop.simps [of h a c] Let_def)
qed

section \<open>Rounding the request\<close>

lemma aligned_size_eq: "aligned_size sz = (sz + 7) AND - 8"
  by (simp add: aligned_size_def)



lemma low_high_bits: "((t::64 word) AND 7) + (t AND - 8) = t"
proof -
  have "(t AND 7) AND (t AND - 8) = 0"
    by (simp add: and.assoc and.left_commute)
  then have "(t AND 7) + (t AND - 8) = (t AND 7) OR (t AND - 8)"
    by (rule disjunctive_add_eq_or)
  also have "\<dots> = t AND (7 OR - 8)"
    by (simp only: bit.conj_disj_distrib)
  also have "\<dots> = t" by simp
  finally show ?thesis .
qed

text \<open>Below the wrap-around the rounding is the least multiple of 8 above the request.\<close>

lemma aligned_size_bounds:
  assumes "uint sz \<le> 2 ^ 64 - 8"
  shows "uint sz \<le> uint (aligned_size sz) \<and> uint (aligned_size sz) < uint sz + 8"
proof -
  let ?t = "sz + 7"
  have t: "uint ?t = uint sz + 7"
    using assms by (simp add: uint_add_lem [THEN iffD1])
  have r: "uint (?t AND 7) \<le> 7"
    using word_and_le1 [of ?t 7] by (simp add: word_le_def)
  have le: "?t AND 7 \<le> ?t"
    by (rule word_and_le2)
  have "?t AND - 8 = ?t - (?t AND 7)"
    using low_high_bits [of ?t] by (metis add_diff_cancel_left')
  then have "uint (?t AND - 8) = uint ?t - uint (?t AND 7)"
    using le by (simp add: uint_sub_lem [THEN iffD1] word_le_def)
  moreover have "0 \<le> uint (?t AND 7)" by simp
  ultimately have "uint sz \<le> uint (?t AND - 8) \<and> uint (?t AND - 8) < uint sz + 8"
    using t r by linarith
  then show ?thesis by (simp add: aligned_size_eq)
qed

lemma size_max: "uint (- 1 :: size_t) = 2 ^ 64 - 1"
  by (simp add: unsigned_minus_1_eq_mask mask_eq_exp_minus_1)

section \<open>Allocation on a tiled arena\<close>

text \<open>\<open>fits h a c\<close>: the test of the search loop, the chunk at \<open>c\<close> is free and large enough.\<close>

definition fits :: "heap_t \<Rightarrow> size_t \<Rightarrow> int \<Rightarrow> bool" where
  "fits h a c \<longleftrightarrow> allocated (h c) = 0 \<and> chunk_size (h c) \<ge> a"

lemma malloc_loop_find:
  "malloc_loop h a c =
     (case find (fits h a) (walk h c) of None \<Rightarrow> (NULL, h) | Some k \<Rightarrow> take_chunk h a k)"
proof (induction h a c rule: malloc_loop.induct)
  case (1 h a current)
  show ?case
  proof (cases "current < 4096")
    case False
    then show ?thesis by (simp add: malloc_loop_out walk_out)
  next
    case True
    show ?thesis
    proof (cases "fits h a current")
      case True
      with \<open>current < 4096\<close> show ?thesis
        by (simp add: malloc_loop_take walk_in fits_def)
    next
      case False
      then have nf: "\<not> (allocated (h current) = 0 \<and> a \<le> chunk_size (h current))"
        by (simp add: fits_def)
      show ?thesis
      proof (cases "next_chunk h current \<ge> 4096")
        case True
        with False nf \<open>current < 4096\<close> show ?thesis
          by (simp add: malloc_loop_skip walk_in walk_out)
      next
        case False
        have "\<not> next_chunk h current \<le> current" by (simp add: not_le)
        with False nf \<open>current < 4096\<close> have
          "malloc_loop h a (next_chunk h current) =
             (case find (fits h a) (walk h (next_chunk h current)) of None \<Rightarrow> (NULL, h)
              | Some k \<Rightarrow> take_chunk h a k)"
          by (intro "1.IH") auto
        with False nf \<open>\<not> fits h a current\<close> \<open>current < 4096\<close> show ?thesis
          by (simp add: malloc_loop_skip walk_in)
      qed
    qed
  qed
qed

lemma uint_plus32: "uint (a::size_t) \<le> 4096 \<Longrightarrow> uint (a + 32) = uint a + 32"
  by (simp add: uint_add_lem [THEN iffD1])

lemma split_remainder:
  assumes "a + 32 \<le> (s::size_t)" "uint a \<le> 4096"
  shows "uint (s - a - 16) = uint s - uint a - 16"
proof -
  have le: "uint a + 32 \<le> uint s"
    using assms by (simp add: word_le_def uint_plus32)
  then have "a \<le> s" by (simp add: word_le_def)
  then have 1: "uint (s - a) = uint s - uint a"
    by (simp add: uint_sub_lem [THEN iffD1] word_le_def)
  with le have "uint (16::size_t) \<le> uint (s - a)" using uint_ge_0 [of a] by simp
  then have "uint (s - a - 16) = uint (s - a) - uint (16::size_t)"
    by (simp add: uint_sub_lem [THEN iffD1])
  with 1 show ?thesis by simp
qed

text \<open>The chunk list after an allocation of padded size \<open>a\<close>.\<close>

fun alloc_list :: "size_t \<Rightarrow> chunk_t list \<Rightarrow> chunk_t list" where
  "alloc_list a [] = []"
| "alloc_list a (x # xs) =
     (if allocated x = 0 \<and> a \<le> chunk_size x then
        (if a + 32 \<le> chunk_size x
         then \<lparr>chunk_size = a, allocated = 1\<rparr>
              # \<lparr>chunk_size = chunk_size x - a - 16, allocated = 0\<rparr> # xs
         else x\<lparr>allocated := 1\<rparr> # xs)
      else x # alloc_list a xs)"

lemma split_threshold: "(a::size_t) + 16 + 16 = a + 32"
  by simp

lemma chunk_t_update_all:
  "r\<lparr>chunk_size := a, allocated := b\<rparr> = \<lparr>chunk_size = a, allocated = b\<rparr>"
  by (cases r) simp

lemma take_chunk_split:
  "a + 32 \<le> chunk_size (h c) \<Longrightarrow>
     take_chunk h a c =
       (Addr (c + 16),
        h(c + 16 + uint a := \<lparr>chunk_size = chunk_size (h c) - a - 16, allocated = 0\<rparr>,
          c := \<lparr>chunk_size = a, allocated = 1\<rparr>))"
  unfolding take_chunk_def Let_def split_threshold
  by (simp add: chunk_t_update_all)

lemma take_chunk_whole:
  "\<not> a + 32 \<le> chunk_size (h c) \<Longrightarrow>
     take_chunk h a c = (Addr (c + 16), h(c := (h c)\<lparr>allocated := 1\<rparr>))"
  unfolding take_chunk_def Let_def split_threshold
  by simp

lemma take_chunk_seg:
  assumes sg: "seg h c (x # xs) e" and e: "e \<le> 4096" and c: "0 \<le> c"
    and f: "allocated x = 0 \<and> a \<le> chunk_size x"
  shows "seg (snd (take_chunk h a c)) c (alloc_list a (x # xs)) e
         \<and> (\<forall>k<c. snd (take_chunk h a c) k = h k)"
proof -
  from sg have hx: "h c = x" and rest: "seg h (c + 16 + uint (chunk_size x)) xs e" by simp_all
  from seg_Cons_le [OF sg] e c have sz: "uint (chunk_size x) \<le> 4096" by linarith
  with f have ua: "uint a \<le> 4096" by (simp add: word_le_def)
  have a0: "0 \<le> uint a" by simp
  show ?thesis
  proof (cases "a + 32 \<le> chunk_size x")
    case True
    from split_remainder [OF True ua]
    have r: "uint (chunk_size x - a - 16) = uint (chunk_size x) - uint a - 16" .
    from True ua have le: "uint a + 32 \<le> uint (chunk_size x)"
      by (simp add: word_le_def uint_plus32)
    let ?n = "c + 16 + uint a"
    let ?h = "h(?n := \<lparr>chunk_size = chunk_size x - a - 16, allocated = 0\<rparr>,
                 c := \<lparr>chunk_size = a, allocated = 1\<rparr>)"
    have n: "c < ?n" "?n < c + 16 + uint (chunk_size x)" using a0 le by linarith+
    have tc: "snd (take_chunk h a c) = ?h"
      using True hx by (simp add: take_chunk_split)
    have al: "alloc_list a (x # xs) = \<lparr>chunk_size = a, allocated = 1\<rparr>
              # \<lparr>chunk_size = chunk_size x - a - 16, allocated = 0\<rparr> # xs"
      using True f by simp
    have "seg ?h (c + 16 + uint (chunk_size x)) xs e"
      using rest n by (intro seg_upd_below) auto
    moreover have "?n + 16 + uint (chunk_size x - a - 16) = c + 16 + uint (chunk_size x)"
      using r by simp
    ultimately have "seg ?h (?n + 16 + uint (chunk_size x - a - 16)) xs e" by (simp only:)
    moreover have "?h c = \<lparr>chunk_size = a, allocated = 1\<rparr>" by simp
    moreover have "?h ?n = \<lparr>chunk_size = chunk_size x - a - 16, allocated = 0\<rparr>"
      using n by simp
    ultimately have "seg ?h c (alloc_list a (x # xs)) e"
      unfolding al by (simp only: seg.simps chunk_t.simps)
    moreover have "\<forall>k<c. ?h k = h k" using n by simp
    ultimately show ?thesis unfolding tc by blast
  next
    case False
    let ?h = "h(c := x\<lparr>allocated := 1\<rparr>)"
    have tc: "snd (take_chunk h a c) = ?h"
      using False hx by (simp add: take_chunk_whole)
    have al: "alloc_list a (x # xs) = x\<lparr>allocated := 1\<rparr> # xs"
      using False f by simp
    have "c < c + 16 + uint (chunk_size x)"
      using uint_ge_0 [of "chunk_size x"] by linarith
    with rest have "seg ?h (c + 16 + uint (chunk_size x)) xs e"
      by (rule seg_upd_below)
    then have "seg ?h c (alloc_list a (x # xs)) e"
      unfolding al by simp
    moreover have "\<forall>k<c. ?h k = h k" by simp
    ultimately show ?thesis unfolding tc by blast
  qed
qed

lemma malloc_loop_seg:
  "seg h c xs 4096 \<Longrightarrow> 0 \<le> c \<Longrightarrow>
     seg (snd (malloc_loop h a c)) c (alloc_list a xs) 4096
     \<and> (\<forall>k<c. snd (malloc_loop h a c) k = h k)"
proof (induction xs arbitrary: c)
  case Nil
  then show ?case by (simp add: malloc_loop_out)
next
  case (Cons x xs)
  from seg_Cons_le [OF Cons.prems(1)] have c: "c < 4096"
    using uint_ge_0 [of "chunk_size x"] by linarith
  from Cons.prems have hx: "h c = x" and rest: "seg h (next_chunk h c) xs 4096"
    by (simp_all add: next_chunk_def)
  show ?case
  proof (cases "allocated x = 0 \<and> a \<le> chunk_size x")
    case True
    with c hx have "malloc_loop h a c = take_chunk h a c" by (simp add: malloc_loop_take)
    with take_chunk_seg [OF Cons.prems(1) _ Cons.prems(2) True] show ?thesis by simp
  next
    case False
    with c hx have ml: "malloc_loop h a c =
       (if next_chunk h c \<ge> 4096 then (NULL, h) else malloc_loop h a (next_chunk h c))"
      by (simp add: malloc_loop_skip)
    show ?thesis
    proof (cases "next_chunk h c \<ge> 4096")
      case True
      with seg_le [OF rest] have "next_chunk h c = 4096" by simp
      with rest have "xs = []" using seg_same_end by simp
      with True ml False Cons.prems show ?thesis by auto
    next
      case nf: False
      have "0 \<le> next_chunk h c" using next_chunk_less [of c h] Cons.prems(2) by linarith
      from Cons.IH [OF rest this] have
        1: "seg (snd (malloc_loop h a (next_chunk h c))) (next_chunk h c) (alloc_list a xs) 4096"
        and 2: "\<forall>k<next_chunk h c. snd (malloc_loop h a (next_chunk h c)) k = h k" by simp_all
      from 2 have "snd (malloc_loop h a (next_chunk h c)) c = x"
        using hx next_chunk_less [of c h] by simp
      moreover have "\<forall>k<c. snd (malloc_loop h a (next_chunk h c)) k = h k"
      proof (intro allI impI)
        fix k :: int assume "k < c"
        then have "k < next_chunk h c" using next_chunk_less [of c h] by linarith
        with 2 show "snd (malloc_loop h a (next_chunk h c)) k = h k" by blast
      qed
      moreover have "alloc_list a (x # xs) = x # alloc_list a xs"
        using False by auto
      moreover have "malloc_loop h a c = malloc_loop h a (next_chunk h c)"
        using ml nf by simp
      ultimately show ?thesis using 1 hx by (simp add: next_chunk_def)
    qed
  qed
qed









section \<open>Deallocation on a tiled arena\<close>









text \<open>Marking the chunk free and merging the next chunk into it.\<close>

definition merged :: "chunk_t \<Rightarrow> chunk_t \<Rightarrow> chunk_t" where
  "merged x y = x\<lparr>chunk_size := chunk_size x + (16 + chunk_size y)\<rparr>"



lemma merged_simps [simp]:
  "chunk_size (merged x y) = chunk_size x + (16 + chunk_size y)"
  "allocated (merged x y) = allocated x"
  by (simp_all add: merged_def)

lemma wf_chunks_Nil [simp]: "wf_chunks []"
  by (simp add: wf_chunks_def)







section \<open>Sample runs\<close>

lemma mymalloc_pristine_32:
  "mymalloc pristine 32 =
     (Addr 16, (initialize_heap pristine)\<lparr>heap :=
        (heap pristine)(48 := \<lparr>chunk_size = 4032, allocated = 0\<rparr>,
                        0 := \<lparr>chunk_size = 32, allocated = 1\<rparr>)\<rparr>)"
  by (simp add: mymalloc_def aligned_size_eq malloc_loop_take take_chunk_split
        initialize_heap_def pristine_def Let_def)


lemma take_chunk_fst: "fst (take_chunk h a c) = Addr (c + 16)"
  by (simp add: take_chunk_def Let_def)

lemma walk_after_malloc: "walk (heap (snd (mymalloc pristine 32))) 0 = [0, 48]"
  unfolding mymalloc_pristine_32 snd_conv
  by (simp add: walk_in walk_out next_chunk_def initialize_heap_def pristine_def)

lemma mymalloc_second:
  "mymalloc (snd (mymalloc pristine 32)) 32 =
     (Addr 64, (initialize_heap pristine)\<lparr>heap :=
        (heap pristine)(0 := \<lparr>chunk_size = 32, allocated = 1\<rparr>,
                        96 := \<lparr>chunk_size = 3984, allocated = 0\<rparr>,
                        48 := \<lparr>chunk_size = 32, allocated = 1\<rparr>)\<rparr>)"
  unfolding mymalloc_pristine_32 snd_conv
  by (simp add: mymalloc_def aligned_size_eq malloc_loop_take malloc_loop_skip take_chunk_split
        next_chunk_def initialize_heap_def pristine_def Let_def fun_upd_twist)

section \<open>What the calls leave as it was\<close>


lemma leak_detection_fields [simp]:
  "heap (leak_detection s) = heap s"
  "initialized (leak_detection s) = initialized s"
  "atexit_handlers (leak_detection s) = atexit_handlers s"
  by (simp_all add: leak_detection_def eprint_def split: prod.splits)

lemma run_handlers_fields [simp]:
  "heap (run_handlers hs s) = heap s"
  "initialized (run_handlers hs s) = initialized s"
  "atexit_handlers (run_handlers hs s) = atexit_handlers s"
  by (induction hs s rule: run_handlers.induct) simp_all

lemma eprint_fields [simp]:
  "heap (eprint m s) = heap s"
  "initialized (eprint m s) = initialized s"
  "atexit_handlers (eprint m s) = atexit_handlers s"
  "err_out (eprint m s) = err_out s @ [m]"
  by (simp_all add: eprint_def)

text \<open>The outcomes of \<^verbatim>\<open>myfree\<close>: it returns the state as it was, or with the chunk coalesced,
  or it prints one of four messages and calls \<^verbatim>\<open>exit(2)\<close>.\<close>

lemma myfree_cases:
  "myfree s p = Returned s
   \<or> (\<exists>c. myfree s p = Returned (s\<lparr>heap := coalesce (heap s) c\<rparr>))
   \<or> (\<exists>m. myfree s p = c_exit 2 (eprint m s))"
  by (auto simp: myfree_def Let_def split: ptr.splits)

lemma mymalloc_cases:
  "snd (mymalloc s sz) = eprint Malloc_zero (if \<not> initialized s then initialize_heap s else s)
   \<or> snd (mymalloc s sz) =
        eprint (Malloc_unable sz) (if \<not> initialized s then initialize_heap s else s)
   \<or> (\<exists>h'. snd (mymalloc s sz) = (if \<not> initialized s then initialize_heap s else s)\<lparr>heap := h'\<rparr>)"
  by (auto simp: mymalloc_def Let_def split: prod.splits)

section \<open>The loops without a termination proof\<close>

text \<open>
  The two chunk-walking loops once more, as partial functions: nothing is assumed
  about their termination, and a run that does not end has the value \<open>None\<close>. The
  computation of the next address is a parameter \<open>next_of\<close>; in the source it is
  \<open>next_chunk\<close>, and whatever a corrupt header or an address computation that wraps
  around yields is some other \<open>next_of\<close>.
\<close>

partial_function (option) malloc_loop_opt ::
  "(heap_t \<Rightarrow> int \<Rightarrow> int) \<Rightarrow> heap_t \<Rightarrow> size_t \<Rightarrow> int \<Rightarrow> (ptr \<times> heap_t) option" where
  "malloc_loop_opt next_of h a current =
     (if current < MEMLENGTH then
        (if allocated (h current) = 0 \<and> chunk_size (h current) \<ge> a
         then Some (take_chunk h a current)
         else (let nxt = next_of h current
               in if nxt \<le> current \<or> nxt \<ge> MEMLENGTH then Some (NULL, h)
                  else malloc_loop_opt next_of h a nxt))
      else Some (NULL, h))"

partial_function (option) prev_scan_opt ::
  "(heap_t \<Rightarrow> int \<Rightarrow> int) \<Rightarrow> heap_t \<Rightarrow> int \<Rightarrow> int \<Rightarrow> int option option" where
  "prev_scan_opt next_of h chunk scan =
     (if scan \<noteq> chunk \<and> scan < MEMLENGTH then
        (let next_scan = next_of h scan
         in if next_scan = chunk then Some (Some scan)
            else if next_scan \<le> scan \<or> next_scan \<ge> MEMLENGTH then Some None
            else prev_scan_opt next_of h chunk next_scan)
      else Some None)"

lemma malloc_loop_opt_total: "\<exists>r. malloc_loop_opt next_of h a c = Some r"
proof (induction "nat (4096 - c)" arbitrary: c rule: less_induct)
  case less
  show ?case
  proof (cases "c < 4096 \<and> \<not> (allocated (h c) = 0 \<and> chunk_size (h c) \<ge> a)
                \<and> \<not> (next_of h c \<le> c \<or> next_of h c \<ge> 4096)")
    case True
    then have "nat (4096 - next_of h c) < nat (4096 - c)" by linarith
    from less [OF this] obtain r where "malloc_loop_opt next_of h a (next_of h c) = Some r"
      by (elim exE)
    with True show ?thesis by (subst malloc_loop_opt.simps) (auto simp: Let_def)
  next
    case False
    then show ?thesis by (subst malloc_loop_opt.simps) (auto simp: Let_def)
  qed
qed

lemma prev_scan_opt_total: "\<exists>r. prev_scan_opt next_of h chunk c = Some r"
proof (induction "nat (4096 - c)" arbitrary: c rule: less_induct)
  case less
  show ?case
  proof (cases "c \<noteq> chunk \<and> c < 4096 \<and> next_of h c \<noteq> chunk
                \<and> \<not> (next_of h c \<le> c \<or> next_of h c \<ge> 4096)")
    case True
    then have "nat (4096 - next_of h c) < nat (4096 - c)" by linarith
    from less [OF this] obtain r where "prev_scan_opt next_of h chunk (next_of h c) = Some r"
      by (elim exE)
    with True show ?thesis by (subst prev_scan_opt.simps) (auto simp: Let_def)
  next
    case False
    then show ?thesis by (subst prev_scan_opt.simps) (auto simp: Let_def)
  qed
qed

section \<open>The leak scan\<close>

definition leaked :: "heap_t \<Rightarrow> int \<Rightarrow> int list" where
  "leaked h c = filter (\<lambda>k. allocated (h k) \<noteq> 0) (walk h c)"

lemma leak_loop_out: "\<not> c < 4096 \<Longrightarrow> leak_loop h c acc = acc"
  by (cases acc) (simp add: leak_loop.simps)

lemma leak_loop_in:
  "c < 4096 \<Longrightarrow>
     leak_loop h c (n, b) =
       leak_loop h (next_chunk h c)
         (if allocated (h c) \<noteq> 0 then (n + 1, b + chunk_size (h c)) else (n, b))"
  by (subst leak_loop.simps) (auto simp: Let_def leak_loop_out)

lemma leak_loop_walk:
  "leak_loop h c (n, b) =
     (n + int (length (leaked h c)), b + sum_list (map (\<lambda>k. chunk_size (h k)) (leaked h c)))"
proof (induction h c arbitrary: n b rule: walk.induct)
  case (1 h c)
  show ?case
  proof (cases "c < 4096")
    case False
    then show ?thesis by (simp add: leak_loop_out leaked_def walk_out)
  next
    case True
    show ?thesis
      by (simp add: leak_loop_in [OF True] "1.IH" [OF True] leaked_def walk_in [OF True])
  qed
qed


lemma leak_loop_seg:
  assumes "seg h 0 xs 4096"
  shows "leak_loop h 0 (0, 0) =
           (int (length (filter (\<lambda>x. allocated x \<noteq> 0) xs)),
            sum_list (map chunk_size (filter (\<lambda>x. allocated x \<noteq> 0) xs)))"
proof -
  from walk_seg [OF assms] have w: "walk h 0 = starts 0 xs" and m: "map h (starts 0 xs) = xs"
    by simp_all
  have "map h (leaked h 0) = filter (\<lambda>x. allocated x \<noteq> 0) (map h (starts 0 xs))"
    by (simp add: leaked_def w filter_map comp_def)
  then have f: "map h (leaked h 0) = filter (\<lambda>x. allocated x \<noteq> 0) xs"
    by (simp only: m)
  have "length (leaked h 0) = length (map h (leaked h 0))" by simp
  moreover have "map (\<lambda>k. chunk_size (h k)) (leaked h 0) = map chunk_size (map h (leaked h 0))"
    by simp
  ultimately show ?thesis
    unfolding leak_loop_walk f by simp
qed

lemma malloc_loop_null:
  "fst (malloc_loop h a c) = NULL \<longleftrightarrow> find (fits h a) (walk h c) = None"
  by (simp add: malloc_loop_find take_chunk_fst split: option.splits)

lemma malloc_loop_null_heap: "fst (malloc_loop h a c) = NULL \<Longrightarrow> snd (malloc_loop h a c) = h"
  by (simp add: malloc_loop_find take_chunk_fst split: option.splits)

text \<open>A successful allocation on a tiled, initialised arena prints nothing.\<close>

lemma mymalloc_seg:
  assumes i: "initialized s" and sg: "seg (heap s) 0 xs 4096" and sz: "sz \<noteq> 0"
    and ex: "\<exists>x \<in> set xs. allocated x = 0 \<and> aligned_size sz \<le> chunk_size x"
  shows "seg (heap (snd (mymalloc s sz))) 0 (alloc_list (aligned_size sz) xs) 4096
         \<and> initialized (snd (mymalloc s sz))
         \<and> atexit_handlers (snd (mymalloc s sz)) = atexit_handlers s
         \<and> err_out (snd (mymalloc s sz)) = err_out s"
proof -
  let ?a = "aligned_size sz"
  from walk_seg [OF sg] have w: "walk (heap s) 0 = starts 0 xs"
    and m: "map (heap s) (starts 0 xs) = xs" by simp_all
  from ex obtain x where "x \<in> set (map (heap s) (starts 0 xs))" "allocated x = 0"
    "?a \<le> chunk_size x" unfolding m by blast
  then obtain c where "c \<in> set (walk (heap s) 0)" "fits (heap s) ?a c"
    unfolding w fits_def by auto
  then have "find (fits (heap s) ?a) (walk (heap s) 0) \<noteq> None"
    unfolding find_None_iff by blast
  then have nn: "fst (malloc_loop (heap s) ?a 0) \<noteq> NULL"
    by (simp add: malloc_loop_null)
  with i sz have "snd (mymalloc s sz) = s\<lparr>heap := snd (malloc_loop (heap s) ?a 0)\<rparr>"
    by (auto simp: mymalloc_def Let_def split: prod.splits)
  moreover from malloc_loop_seg [OF sg, of ?a]
  have "seg (snd (malloc_loop (heap s) ?a 0)) 0 (alloc_list ?a xs) 4096" by simp
  ultimately show ?thesis using i by simp
qed

lemma initialize_heap_seg:
  "seg (heap (initialize_heap s)) 0 [\<lparr>chunk_size = 4080, allocated = 0\<rparr>] 4096"
  by (simp add: initialize_heap_def)

lemma mymalloc_uninitialized:
  "\<not> initialized s \<Longrightarrow> mymalloc s sz = mymalloc (initialize_heap s) sz"
  by (simp add: mymalloc_def initialize_heap_def)








lemma sum_list_uint_nonneg: "0 \<le> sum_list (map (\<lambda>x. uint (f x)) xs)"
  by (induction xs) simp_all




text \<open>A request of 40 bytes on a fresh arena, as in the tests of the error paths.\<close>

lemma mymalloc_pristine_40:
  "seg (heap (snd (mymalloc pristine 40))) 0
     [\<lparr>chunk_size = 40, allocated = 1\<rparr>, \<lparr>chunk_size = 4024, allocated = 0\<rparr>] 4096
   \<and> initialized (snd (mymalloc pristine 40))
   \<and> atexit_handlers (snd (mymalloc pristine 40)) = [Leak_detection]
   \<and> err_out (snd (mymalloc pristine 40)) = []"
proof -
  let ?s0 = "initialize_heap pristine"
  have a: "aligned_size 40 = 40" by (simp add: aligned_size_eq)
  have z: "(40 :: size_t) \<noteq> 0" by simp
  have 0: "initialized ?s0" "atexit_handlers ?s0 = [Leak_detection]" "err_out ?s0 = []"
    by (simp_all add: initialize_heap_def pristine_def)
  have u: "mymalloc pristine 40 = mymalloc ?s0 40"
    by (rule mymalloc_uninitialized) (simp add: pristine_def)
  from mymalloc_seg [OF 0(1) initialize_heap_seg z] 0 show ?thesis
    unfolding u by (simp add: a)
qed

section \<open>The claims\<close>

subsection \<open>C1: the arena invariant\<close>



subsection \<open>C2: first fit\<close>

text \<open>
  C2: for every request \<open>sz > 0\<close>, with \<open>cs\<close> the chunks in address order from the base
  and \<open>a\<close> the padded size, the chunk \<^verbatim>\<open>mymalloc\<close> selects is the first chunk of \<open>cs\<close> that
  is free and has payload size at least \<open>a\<close>: every chunk before it fails the test, and
  \<^verbatim>\<open>NULL\<close> is returned only when no chunk passes it.
\<close>

theorem first_fit:
  assumes "sz \<noteq> 0"
  shows "let s = (if \<not> initialized s0 then initialize_heap s0 else s0);
             cs = walk (heap s) 0; a = aligned_size sz
         in (fst (mymalloc s0 sz) = Addr k \<longrightarrow>
               (\<exists>i<length cs. cs ! i = k - 16 \<and> fits (heap s) a (cs ! i)
                   \<and> (\<forall>j<i. \<not> fits (heap s) a (cs ! j))))
            \<and> (fst (mymalloc s0 sz) = NULL \<longrightarrow> (\<forall>c \<in> set cs. \<not> fits (heap s) a c))"
proof -
  define s where "s = (if \<not> initialized s0 then initialize_heap s0 else s0)"
  define cs where "cs = walk (heap s) 0"
  define a where "a = aligned_size sz"
  have m: "fst (mymalloc s0 sz) = fst (malloc_loop (heap s) a 0)"
    using assms by (auto simp: mymalloc_def Let_def s_def a_def split: prod.splits)
  have f: "fst (malloc_loop (heap s) a 0) =
        (case find (fits (heap s) a) cs of None \<Rightarrow> NULL | Some c \<Rightarrow> Addr (c + 16))"
    by (simp add: malloc_loop_find cs_def take_chunk_fst split: option.splits)
  have 1: "\<exists>i<length cs. cs ! i = k - 16 \<and> fits (heap s) a (cs ! i)
              \<and> (\<forall>j<i. \<not> fits (heap s) a (cs ! j))"
    if "fst (mymalloc s0 sz) = Addr k"
  proof -
    from that m f obtain c where c: "find (fits (heap s) a) cs = Some c" and k: "k = c + 16"
      by (auto split: option.splits)
    from c obtain i where "i < length cs" "fits (heap s) a (cs ! i)" "c = cs ! i"
      "\<forall>j<i. \<not> fits (heap s) a (cs ! j)"
      unfolding find_Some_iff by blast
    with k show ?thesis by auto
  qed
  have 2: "\<forall>c \<in> set cs. \<not> fits (heap s) a c" if "fst (mymalloc s0 sz) = NULL"
  proof -
    from that m f have "find (fits (heap s) a) cs = None" by (auto split: option.splits)
    then show ?thesis unfolding find_None_iff by blast
  qed
  from 1 2 show ?thesis unfolding Let_def s_def [symmetric] cs_def [symmetric] a_def [symmetric]
    by blast
qed


theorem first_fit_witness:
  "fst (mymalloc (snd (mymalloc pristine 32)) 32) = Addr 64
   \<and> (\<exists>i<length (walk (heap (snd (mymalloc pristine 32))) 0).
         walk (heap (snd (mymalloc pristine 32))) 0 ! i = 48
         \<and> fits (heap (snd (mymalloc pristine 32))) (aligned_size 32)
               (walk (heap (snd (mymalloc pristine 32))) 0 ! i)
         \<and> (\<forall>j<i. \<not> fits (heap (snd (mymalloc pristine 32))) (aligned_size 32)
                        (walk (heap (snd (mymalloc pristine 32))) 0 ! j)))"
proof -
  have i: "initialized (snd (mymalloc pristine 32))"
    by (simp add: mymalloc_pristine_32 initialize_heap_def)
  have r: "fst (mymalloc (snd (mymalloc pristine 32)) 32) = Addr 64"
    by (simp add: mymalloc_second)
  have nz: "(32 :: size_t) \<noteq> 0" by simp
  from first_fit [OF nz, of "snd (mymalloc pristine 32)" 64] i r
  show ?thesis by (simp add: Let_def)
qed

subsection \<open>C3: the split policy\<close>

text \<open>
  As stated, C3 fails at the threshold itself. On a fresh arena the free chunk has payload
  size 4080; for a request of 4048 bytes the padded size is 4048, and 4080 does not exceed
  \<open>4048 + 16 + 16\<close>, yet the chunk is split: the allocated part gets 4048 bytes and a free
  chunk of 16 bytes follows at offset 4064.
\<close>

theorem split_at_threshold:
  "aligned_size 4048 = 4048
   \<and> chunk_size (heap (initialize_heap pristine) 0) = 4080
   \<and> \<not> (uint (4080 :: size_t) > uint (aligned_size 4048) + sizeof_chunk_t + MIN_CHUNK_SIZE)
   \<and> mymalloc pristine 4048 =
       (Addr 16, (initialize_heap pristine)\<lparr>heap :=
          (heap pristine)(4064 := \<lparr>chunk_size = 16, allocated = 0\<rparr>,
                          0 := \<lparr>chunk_size = 4048, allocated = 1\<rparr>)\<rparr>)"
  by (simp add: mymalloc_def aligned_size_eq malloc_loop_take take_chunk_split
        initialize_heap_def pristine_def Let_def)

text \<open>
  C3, amended: the search hands the selected chunk to \<open>take_chunk\<close>. For a selected chunk
  (free, payload size at least the padded size \<open>a\<close>) that lies in the arena, the chunk is
  split exactly when its payload size is at least \<open>a + H + M\<close>; on a split the low part
  becomes an allocated chunk of payload size \<open>a\<close> and a free chunk of payload size
  \<open>old - a - H\<close> follows at once; otherwise the whole chunk is marked allocated, its size
  unchanged.
\<close>

theorem split_policy:
  assumes "fits h a c" and "uint (chunk_size (h c)) \<le> MEMLENGTH"
  shows "malloc_loop h a 0 =
           (case find (fits h a) (walk h 0) of None \<Rightarrow> (NULL, h) | Some k \<Rightarrow> take_chunk h a k)
         \<and> take_chunk h a c =
           (Addr (c + sizeof_chunk_t),
            if uint (chunk_size (h c)) \<ge> uint a + sizeof_chunk_t + MIN_CHUNK_SIZE
            then h(c + sizeof_chunk_t + uint a :=
                     \<lparr>chunk_size = chunk_size (h c) - a - sizeof_chunk_t, allocated = 0\<rparr>,
                   c := \<lparr>chunk_size = a, allocated = 1\<rparr>)
            else h(c := (h c)\<lparr>allocated := 1\<rparr>))
         \<and> (uint (chunk_size (h c)) \<ge> uint a + sizeof_chunk_t + MIN_CHUNK_SIZE \<longrightarrow>
              uint (chunk_size (h c) - a - sizeof_chunk_t)
                = uint (chunk_size (h c)) - uint a - sizeof_chunk_t)"
proof -
  from assms have ua: "uint a \<le> 4096" by (simp add: fits_def word_le_def)
  then have t: "a + 32 \<le> chunk_size (h c) \<longleftrightarrow> uint a + 32 \<le> uint (chunk_size (h c))"
    by (simp add: word_le_def uint_plus32)
  show ?thesis
  proof (cases "a + 32 \<le> chunk_size (h c)")
    case True
    with t split_remainder [OF True ua] show ?thesis
      by (simp add: malloc_loop_find take_chunk_split)
  next
    case False
    with t show ?thesis
      by (simp add: malloc_loop_find take_chunk_whole)
  qed
qed

theorem split_policy_witness:
  "take_chunk (heap (initialize_heap pristine)) 4048 0 =
     (Addr 16, (heap (initialize_heap pristine))
                 (4064 := \<lparr>chunk_size = 16, allocated = 0\<rparr>,
                  0 := \<lparr>chunk_size = 4048, allocated = 1\<rparr>))
   \<and> take_chunk (heap (initialize_heap pristine)) 4056 0 =
     (Addr 16, (heap (initialize_heap pristine))(0 := \<lparr>chunk_size = 4080, allocated = 1\<rparr>))"
proof -
  let ?h = "heap (initialize_heap pristine)"
  have c: "?h 0 = \<lparr>chunk_size = 4080, allocated = 0\<rparr>"
    by (simp add: initialize_heap_def)
  have 1: "fits ?h 4048 0" and 2: "fits ?h 4056 0"
    and 3: "uint (chunk_size (?h 0)) \<le> 4096"
    by (simp_all add: fits_def c)
  from split_policy [OF 1 3] have "take_chunk ?h 4048 0 =
           (Addr (0 + 16),
            if uint (chunk_size (?h 0)) \<ge> uint (4048 :: size_t) + 16 + 16
            then ?h(0 + 16 + uint (4048 :: size_t) :=
                     \<lparr>chunk_size = chunk_size (?h 0) - 4048 - 16, allocated = 0\<rparr>,
                   0 := \<lparr>chunk_size = 4048, allocated = 1\<rparr>)
            else ?h(0 := (?h 0)\<lparr>allocated := 1\<rparr>))"
    by (rule conjunct2 [THEN conjunct1])
  moreover from split_policy [OF 2 3] have "take_chunk ?h 4056 0 =
           (Addr (0 + 16),
            if uint (chunk_size (?h 0)) \<ge> uint (4056 :: size_t) + 16 + 16
            then ?h(0 + 16 + uint (4056 :: size_t) :=
                     \<lparr>chunk_size = chunk_size (?h 0) - 4056 - 16, allocated = 0\<rparr>,
                   0 := \<lparr>chunk_size = 4056, allocated = 1\<rparr>)
            else ?h(0 := (?h 0)\<lparr>allocated := 1\<rparr>))"
    by (rule conjunct2 [THEN conjunct1])
  ultimately show ?thesis by (simp add: c)
qed

subsection \<open>C4: fatal pointers\<close>



subsection \<open>C5: a request of zero bytes\<close>

text \<open>
  As stated, C5 fails when \<^verbatim>\<open>mymalloc(0)\<close> is the first call: the arena is initialised
  before the size is looked at, so the flag, the first header and the registered exit
  handlers all change.
\<close>

theorem mymalloc_zero_first_call:
  "fst (mymalloc pristine 0) = NULL
   \<and> initialized (snd (mymalloc pristine 0)) \<noteq> initialized pristine
   \<and> heap (snd (mymalloc pristine 0)) 0 \<noteq> heap pristine 0
   \<and> atexit_handlers (snd (mymalloc pristine 0)) \<noteq> atexit_handlers pristine"
  by (simp add: mymalloc_def initialize_heap_def pristine_def eprint_def Let_def)

text \<open>
  C5, amended: \<^verbatim>\<open>mymalloc(0)\<close> returns \<^verbatim>\<open>NULL\<close>. On an initialised arena it only prints
  the diagnostic, which leaves the arena contents, the flag and the exit handlers as
  they were; as the first call it initialises the arena first.
\<close>

theorem mymalloc_zero:
  "fst (mymalloc s 0) = NULL
   \<and> (initialized s \<longrightarrow> snd (mymalloc s 0) = eprint Malloc_zero s)
   \<and> (\<not> initialized s \<longrightarrow> snd (mymalloc s 0) = eprint Malloc_zero (initialize_heap s))
   \<and> heap (eprint Malloc_zero s) = heap s
   \<and> initialized (eprint Malloc_zero s) = initialized s
   \<and> atexit_handlers (eprint Malloc_zero s) = atexit_handlers s"
  by (simp add: mymalloc_def eprint_def Let_def)

theorem mymalloc_zero_witness:
  "snd (mymalloc (initialize_heap pristine) 0) = eprint Malloc_zero (initialize_heap pristine)
   \<and> snd (mymalloc pristine 0) = eprint Malloc_zero (initialize_heap pristine)"
  using mymalloc_zero [of "initialize_heap pristine"] mymalloc_zero [of pristine]
  by (simp add: initialize_heap_def pristine_def)

subsection \<open>C6: when the leak scan runs\<close>

text \<open>
  As stated, C6 fails: the fatal paths of \<^verbatim>\<open>myfree\<close> end the process with \<^verbatim>\<open>exit(2)\<close>, and
  \<^verbatim>\<open>exit\<close> calls the functions registered with \<^verbatim>\<open>atexit\<close>. After a request of 40 bytes,
  releasing the pointer plus 4 is refused as misaligned, and the leak scan runs after
  the message: it reports the one chunk still allocated.
\<close>

theorem leak_scan_on_fatal_exit:
  "myfree (snd (mymalloc pristine 40)) (Addr 20)
     = Exited 2 (leak_detection (eprint Free_misaligned (snd (mymalloc pristine 40))))
   \<and> err_out (leak_detection (eprint Free_misaligned (snd (mymalloc pristine 40))))
     = [Free_misaligned, Leaked 40 1]"
proof -
  let ?s = "snd (mymalloc pristine 40)"
  from mymalloc_pristine_40 have sg: "seg (heap ?s) 0
     [\<lparr>chunk_size = 40, allocated = 1\<rparr>, \<lparr>chunk_size = 4024, allocated = 0\<rparr>] 4096"
    and r: "atexit_handlers ?s = [Leak_detection]" and e: "err_out ?s = []" by simp_all
  have "myfree ?s (Addr 20) = c_exit 2 (eprint Free_misaligned ?s)"
    by (simp add: myfree_def)
  then have 1: "myfree ?s (Addr 20) = Exited 2 (leak_detection (eprint Free_misaligned ?s))"
    by (simp add: c_exit_def r)
  from leak_loop_seg [OF sg] have "leak_loop (heap ?s) 0 (0, 0) = (1, 40)" by simp
  then have 2: "err_out (leak_detection (eprint Free_misaligned ?s)) = [Free_misaligned, Leaked 40 1]"
    by (simp add: leak_detection_def e)
  from 1 2 show ?thesis by (rule conjI)
qed

text \<open>
  C6, amended: \<^verbatim>\<open>leak_detection\<close> is registered once, when the arena is initialised, and
  neither \<^verbatim>\<open>mymalloc\<close> nor \<^verbatim>\<open>myfree\<close> registers it again. Whenever the process ends through
  \<^verbatim>\<open>exit\<close>, with any status, the scan runs exactly once if the arena was initialised and
  not at all otherwise. The fatal paths of \<^verbatim>\<open>myfree\<close> are such exits, with status 2: the
  scan runs there too, after the error message.
\<close>

theorem leak_scan_at_exit:
  assumes "atexit_handlers s = (if initialized s then [Leak_detection] else [])"
  shows "atexit_handlers (snd (mymalloc s sz)) = [Leak_detection]
         \<and> initialized (snd (mymalloc s sz))
         \<and> (myfree s p = Returned s' \<longrightarrow>
               atexit_handlers s' = (if initialized s' then [Leak_detection] else []))
         \<and> c_exit status s = Exited status (if initialized s then leak_detection s else s)
         \<and> (myfree s p = Exited status' s'' \<longrightarrow>
               status' = 2
               \<and> (\<exists>m. s'' = (if initialized s then leak_detection (eprint m s) else eprint m s)))"
proof -
  have 1: "atexit_handlers (snd (mymalloc s sz)) = [Leak_detection]
           \<and> initialized (snd (mymalloc s sz))"
    using mymalloc_cases [of s sz] assms by (auto simp: initialize_heap_def)
  have 2: "atexit_handlers s' = (if initialized s' then [Leak_detection] else [])"
    if "myfree s p = Returned s'"
    using myfree_cases [of s p] that assms by (auto simp: c_exit_def)
  have 3: "c_exit st t = Exited st (if initialized t then leak_detection t else t)"
    if "atexit_handlers t = (if initialized t then [Leak_detection] else [])" for st t
    using that by (simp add: c_exit_def)
  have 4: "status' = 2
           \<and> (\<exists>m. s'' = (if initialized s then leak_detection (eprint m s) else eprint m s))"
    if r: "myfree s p = Exited status' s''"
  proof -
    from myfree_cases [of s p] r obtain m where "myfree s p = c_exit 2 (eprint m s)" by auto
    moreover have "c_exit 2 (eprint m s)
                     = Exited 2 (if initialized s then leak_detection (eprint m s) else eprint m s)"
      using 3 [of "eprint m s" 2] assms by simp
    ultimately show ?thesis using r by auto
  qed
  from 1 2 3 [OF assms] 4 show ?thesis by blast
qed

theorem leak_scan_at_exit_witness:
  "c_exit 0 (snd (mymalloc pristine 40)) = Exited 0 (leak_detection (snd (mymalloc pristine 40)))
   \<and> c_exit 0 pristine = Exited 0 pristine
   \<and> atexit_handlers (snd (mymalloc (snd (mymalloc pristine 40)) 8)) = [Leak_detection]"
proof -
  let ?s = "snd (mymalloc pristine 40)"
  from mymalloc_pristine_40
  have a: "atexit_handlers ?s = (if initialized ?s then [Leak_detection] else [])"
    and i: "initialized ?s" by simp_all
  have b: "atexit_handlers pristine = (if initialized pristine then [Leak_detection] else [])"
    and j: "\<not> initialized pristine"
    by (simp_all add: pristine_def)
  from leak_scan_at_exit [OF a, of 8 NULL ?s 0 0 ?s] i
    leak_scan_at_exit [OF b, of 8 NULL ?s 0 0 ?s] j
  show ?thesis by simp
qed

subsection \<open>C7: the leak report\<close>



subsection \<open>C8: the padded size\<close>

text \<open>
  C8 says that for every request \<open>s > 0\<close> the padded size is the least multiple of
  \<^verbatim>\<open>ALIGNMENT\<close> that is at least \<open>s\<close>, also near the maximum of \<^verbatim>\<open>size_t\<close>. The code
  computes \<^verbatim>\<open>(size + 7) & ~7\<close> in \<^verbatim>\<open>size_t\<close>, which wraps: for \<^verbatim>\<open>SIZE_MAX\<close> (written
  \<open>- 1\<close>) the padded size is 0, and on a fresh arena \<^verbatim>\<open>mymalloc\<close> then hands out the
  payload address of a chunk of payload size 0 instead of failing.
\<close>

theorem aligned_size_wraps:
  "uint (- 1 :: size_t) = 2 ^ 64 - 1
   \<and> aligned_size (- 1) = 0
   \<and> mymalloc pristine (- 1) =
       (Addr 16, (initialize_heap pristine)\<lparr>heap :=
          (heap pristine)(16 := \<lparr>chunk_size = 4064, allocated = 0\<rparr>,
                          0 := \<lparr>chunk_size = 0, allocated = 1\<rparr>)\<rparr>)"
  by (simp add: mymalloc_def aligned_size_eq malloc_loop_take take_chunk_def
        initialize_heap_def pristine_def Let_def size_max)

subsection \<open>C9: when the arena is created\<close>




subsection \<open>C10: the loops terminate\<close>

text \<open>
  C10: the search loop of \<^verbatim>\<open>mymalloc\<close> and the predecessor scan of \<^verbatim>\<open>myfree\<close> end for every
  content of the arena, well-formed or not, and from every start address. They end
  because of the test in the loop alone, whatever address \<open>next_of\<close> computes: each
  round either leaves the loop or moves to an address that is strictly greater and
  still inside the arena. With the address computation of the source they return what
  the total definitions \<open>malloc_loop\<close> and \<open>prev_scan\<close> return.
\<close>

theorem loops_terminate:
  "(\<exists>r. malloc_loop_opt next_of h a current = Some r)
   \<and> (\<exists>r. prev_scan_opt next_of h chunk scan = Some r)
   \<and> malloc_loop_opt next_chunk h a current = Some (malloc_loop h a current)
   \<and> prev_scan_opt next_chunk h chunk scan = Some (prev_scan h chunk scan)"
proof (intro conjI)
  show "\<exists>r. malloc_loop_opt next_of h a current = Some r"
    by (rule malloc_loop_opt_total)
  show "\<exists>r. prev_scan_opt next_of h chunk scan = Some r"
    by (rule prev_scan_opt_total)
  show "malloc_loop_opt next_chunk h a current = Some (malloc_loop h a current)"
  proof (induction h a current rule: malloc_loop.induct)
    case (1 h a current)
    show ?case
    proof (cases "current < 4096 \<and> \<not> (allocated (h current) = 0 \<and> chunk_size (h current) \<ge> a)
                  \<and> \<not> (next_chunk h current \<le> current \<or> next_chunk h current \<ge> 4096)")
      case True
      then have "malloc_loop_opt next_chunk h a (next_chunk h current)
                   = Some (malloc_loop h a (next_chunk h current))"
        by (intro "1.IH") auto
      with True show ?thesis
        by (subst malloc_loop_opt.simps, subst malloc_loop.simps) (auto simp: Let_def)
    next
      case False
      then show ?thesis
        by (subst malloc_loop_opt.simps, subst malloc_loop.simps) (auto simp: Let_def)
    qed
  qed
  show "prev_scan_opt next_chunk h chunk scan = Some (prev_scan h chunk scan)"
  proof (induction h chunk scan rule: prev_scan.induct)
    case (1 h chunk scan)
    show ?case
    proof (cases "scan \<noteq> chunk \<and> scan < 4096 \<and> next_chunk h scan \<noteq> chunk
                  \<and> \<not> (next_chunk h scan \<le> scan \<or> next_chunk h scan \<ge> 4096)")
      case True
      then have "prev_scan_opt next_chunk h chunk (next_chunk h scan)
                   = Some (prev_scan h chunk (next_chunk h scan))"
        by (intro "1.IH") auto
      with True show ?thesis
        by (subst prev_scan_opt.simps, subst prev_scan.simps) (auto simp: Let_def)
    next
      case False
      then show ?thesis
        by (subst prev_scan_opt.simps, subst prev_scan.simps) (auto simp: Let_def)
    qed
  qed
qed

end
